theory Spec2Isabelle
  imports Main "HOL-Library.Sublist" "HOL-Library.Char_ord" "HOL-Library.List_Lexorder"
begin

section \<open>Strings\<close>

text \<open>
  Python strings are modelled as \<^typ>\<open>string\<close>, one \<^typ>\<open>char\<close> per code point (so the
  model covers code points below 256); \<^const>\<open>length\<close> is Python's \<^verbatim>\<open>len\<close>,
  \<^const>\<open>prefix\<close> is \<^verbatim>\<open>str.startswith\<close>, \<^const>\<open>take\<close> is the slice \<^verbatim>\<open>s[:n]\<close>
  for a non-negative literal \<^verbatim>\<open>n\<close>.
\<close>

text \<open>\<^verbatim>\<open>s.rstrip(c)\<close> for a one-character argument: every trailing \<^verbatim>\<open>c\<close> is removed.\<close>

definition rstrip_char :: "char \<Rightarrow> string \<Rightarrow> string" where
  "rstrip_char c s = rev (dropWhile (\<lambda>x. x = c) (rev s))"

text \<open>\<^verbatim>\<open>sub in s\<close>: \<^verbatim>\<open>sub\<close> occurs in \<^verbatim>\<open>s\<close> as a contiguous block.\<close>

fun contains :: "string \<Rightarrow> string \<Rightarrow> bool" where
  "contains sub [] = (sub = [])"
| "contains sub (c # cs) = (prefix sub (c # cs) \<or> contains sub cs)"

text \<open>
  \<^verbatim>\<open>s.replace(old, new)\<close> for a non-empty \<^verbatim>\<open>old\<close>: the occurrences are replaced from left
  to right, without overlap. (Every call of the program passes \<^verbatim>\<open>'www.'\<close>, \<^verbatim>\<open>'-'\<close>,
  \<^verbatim>\<open>'_'\<close> or \<^verbatim>\<open>'://'\<close>.)
\<close>

function str_replace :: "string \<Rightarrow> string \<Rightarrow> string \<Rightarrow> string" where
  "str_replace old new [] = []"
| "str_replace old new (c # cs) =
     (if old \<noteq> [] \<and> prefix old (c # cs)
      then new @ str_replace old new (drop (length old) (c # cs))
      else c # str_replace old new cs)"
  by pat_completeness auto
termination
  by (relation "measure (\<lambda>(old, new, s). length s)") auto

text \<open>\<^verbatim>\<open>s.split(sep)[0]\<close> for a non-empty \<^verbatim>\<open>sep\<close>: the text before its first occurrence.\<close>

fun split_first :: "string \<Rightarrow> string \<Rightarrow> string" where
  "split_first sep [] = []"
| "split_first sep (c # cs) = (if prefix sep (c # cs) then [] else c # split_first sep cs)"

text \<open>\<^verbatim>\<open>s.split(c)[-1]\<close> for a one-character \<^verbatim>\<open>c\<close>: the text after its last occurrence.\<close>

definition split_last :: "char \<Rightarrow> string \<Rightarrow> string" where
  "split_last c s = rev (takeWhile (\<lambda>x. x \<noteq> c) (rev s))"

text \<open>\<^verbatim>\<open>str.isspace\<close> on the code points below 256, and \<^verbatim>\<open>s.strip()\<close>.\<close>

definition is_space :: "char \<Rightarrow> bool" where
  "is_space c = ((of_char c :: nat) \<in> {9, 10, 11, 12, 13, 28, 29, 30, 31, 32, 133, 160})"

definition strip :: "string \<Rightarrow> string" where
  "strip s = rev (dropWhile is_space (rev (dropWhile is_space s)))"

text \<open>
  The slice \<^verbatim>\<open>xs[:n]\<close> for a Python integer \<^verbatim>\<open>n\<close>: a negative \<^verbatim>\<open>n\<close> counts from the
  end of the list.
\<close>

definition slice_to :: "int \<Rightarrow> 'a list \<Rightarrow> 'a list" where
  "slice_to n xs = (if 0 \<le> n then take (nat n) xs else take (nat (int (length xs) + n)) xs)"

text \<open>
  \<^verbatim>\<open>list(dict.fromkeys(xs))\<close>: the keys are inserted in order, and a key that is already
  present keeps its place.
\<close>

fun fromkeys_acc :: "'a list \<Rightarrow> 'a list \<Rightarrow> 'a list" where
  "fromkeys_acc keys [] = keys"
| "fromkeys_acc keys (x # xs) = fromkeys_acc (if x \<in> set keys then keys else keys @ [x]) xs"

definition fromkeys :: "'a list \<Rightarrow> 'a list" where
  "fromkeys xs = fromkeys_acc [] xs"

section \<open>URLs\<close>

text \<open>
  \<^verbatim>\<open>urllib.parse.urlparse(url).netloc\<close>, as CPython 3.12 computes it: leading control
  characters and spaces are dropped, tabs and line breaks are removed, a scheme (a
  letter followed by letters, digits, \<^verbatim>\<open>+\<close>, \<^verbatim>\<open>-\<close>, \<^verbatim>\<open>.\<close> up to the first colon) is cut off,
  and when the rest starts with \<^verbatim>\<open>//\<close> the network location runs up to the next
  \<^verbatim>\<open>/\<close>, \<^verbatim>\<open>?\<close> or \<^verbatim>\<open>#\<close>. The library's \<^verbatim>\<open>ValueError\<close> for a malformed bracketed
  host is outside the model.
\<close>

definition is_alpha :: "char \<Rightarrow> bool" where
  "is_alpha c = (let n = (of_char c :: nat) in (65 \<le> n \<and> n \<le> 90) \<or> (97 \<le> n \<and> n \<le> 122))"

definition is_scheme_char :: "char \<Rightarrow> bool" where
  "is_scheme_char c =
     (let n = (of_char c :: nat) in is_alpha c \<or> (48 \<le> n \<and> n \<le> 57) \<or> c \<in> set ''+-.'')"

definition drop_scheme :: "string \<Rightarrow> string" where
  "drop_scheme u =
     (let name = takeWhile (\<lambda>c. c \<noteq> CHR '':'') u in
      if length name < length u \<and> name \<noteq> [] \<and> is_alpha (hd u) \<and> list_all is_scheme_char name
      then drop (length name + 1) u else u)"

definition netloc :: "string \<Rightarrow> string" where
  "netloc raw =
     (let u0 = dropWhile (\<lambda>c. (of_char c :: nat) \<le> 32) raw;
          u1 = filter (\<lambda>c. (of_char c :: nat) \<notin> {9, 10, 13}) u0;
          u2 = drop_scheme u1
      in if take 2 u2 = ''//'' then takeWhile (\<lambda>c. c \<notin> set ''/?#'') (drop 2 u2) else [])"

section \<open>The URL normalizer\<close>

text \<open>\<^verbatim>\<open>_normalize_url\<close> (crawler.py 113-117, app.py 80-83).\<close>

definition normalize_url :: "string \<Rightarrow> string" where
  "normalize_url u =
     rstrip_char CHR ''/''
       (if \<not> (prefix ''http://'' u \<or> prefix ''https://'' u) then ''https://'' @ u else u)"

text \<open>
  The two crawler classes. Their methods agree line by line except for
  \<^verbatim>\<open>_is_same_domain\<close>: \<^verbatim>\<open>WebCrawler\<close> (crawler.py 119-123) compares the network
  locations as they are, \<^verbatim>\<open>AsyncWebCrawler\<close> (app.py 88-94) compares them after
  \<^verbatim>\<open>.replace('www.', '')\<close>.
\<close>

datatype crawler = WebCrawler | AsyncWebCrawler

fun is_same_domain :: "crawler \<Rightarrow> string \<Rightarrow> string \<Rightarrow> bool" where
  "is_same_domain WebCrawler base_url u = (netloc base_url = netloc u)"
| "is_same_domain AsyncWebCrawler base_url u =
     (str_replace ''www.'' '''' (netloc base_url) = str_replace ''www.'' '''' (netloc u))"

text \<open>
  The specification's wording of the same test, for comparison: the hosts are equal
  after a leading \<^verbatim>\<open>www.\<close> is stripped from each.
\<close>

definition strip_leading_www :: "string \<Rightarrow> string" where
  "strip_leading_www h = (if prefix ''www.'' h then drop 4 h else h)"

definition same_domain_spec :: "string \<Rightarrow> string \<Rightarrow> bool" where
  "same_domain_spec base_url u =
     (strip_leading_www (netloc base_url) = strip_leading_www (netloc u))"

text \<open>The text that \<^const>\<open>normalize_url\<close> leaves after an \<^verbatim>\<open>http://\<close> or \<^verbatim>\<open>https://\<close> prefix.\<close>

definition after_scheme :: "string \<Rightarrow> string" where
  "after_scheme u =
     (if prefix ''http://'' u then drop 7 u else if prefix ''https://'' u then drop 8 u else u)"

section \<open>Collaborators and crawl state\<close>

text \<open>\<^verbatim>\<open>PageInfo\<close> (crawler.py 18-25, app.py 49-56).\<close>

record page_info =
  url :: string
  title :: string
  description :: string
  content_preview :: string
  links :: "string list"

text \<open>
  What \<^verbatim>\<open>client.get(url)\<close> followed by \<^verbatim>\<open>response.raise_for_status()\<close> does:
  \<^item> \<open>Body b\<close>: both return, and \<^verbatim>\<open>response.text\<close> is \<open>b\<close>;
  \<^item> \<open>HTTPError\<close>: one of them raises an \<^verbatim>\<open>httpx.HTTPError\<close> (a transport error, a
    timeout, a status that is not 2xx), which \<^verbatim>\<open>_fetch\<close> catches;
  \<^item> \<open>OtherError\<close>: one of them raises an exception that is not an \<^verbatim>\<open>httpx.HTTPError\<close>
    (\<^verbatim>\<open>httpx.InvalidURL\<close> for a URL that cannot be parsed is none), which \<^verbatim>\<open>_fetch\<close>
    does not catch.
\<close>

datatype response = Body string | HTTPError | OtherError

text \<open>
  The libraries the crawler calls, as parameters; \<^typ>\<open>'w\<close> is the state of the network.
  \<^item> \<open>http_get w u\<close>: the outcome of the request for \<open>u\<close> in the state \<open>w\<close>, and the
    network's next state.
  \<^item> \<open>parse_sitemap c\<close>: the \<^verbatim>\<open>url/loc\<close> and \<^verbatim>\<open>sitemap/loc\<close> texts that
    \<^verbatim>\<open>SitemapParser.parse\<close> (crawler.py 36-65, app.py 105-126) reads from the XML tree,
    both empty when the XML parser fails.
  \<^item> \<open>anchor_hrefs h\<close>: the \<^verbatim>\<open>href\<close> of every \<^verbatim>\<open>a\<close> element that has one, in document
    order (\<^verbatim>\<open>soup.find_all('a', href=True)\<close>).
  \<^item> \<open>urljoin b h\<close>: \<^verbatim>\<open>urllib.parse.urljoin\<close>.
  \<^item> \<open>title_text h\<close>: the stripped text of the first \<^verbatim>\<open>title\<close> element, if there is one.
  \<^item> \<open>meta_description h\<close>, \<open>og_description h\<close>: the \<^verbatim>\<open>content\<close> attribute of the first
    \<^verbatim>\<open>meta\<close> element named \<^verbatim>\<open>description\<close>, or of property \<^verbatim>\<open>og:description\<close>, if the
    element and the attribute are there.
  \<^item> \<open>block_texts h\<close>: the stripped text of every \<^verbatim>\<open>p\<close>, \<^verbatim>\<open>article\<close> and \<^verbatim>\<open>main\<close>
    element, in document order.
  The parsing libraries and \<^verbatim>\<open>urljoin\<close> are taken to return: an exception of theirs is
  outside the model.
\<close>

record 'w env =
  http_get :: "'w \<Rightarrow> string \<Rightarrow> response \<times> 'w"
  parse_sitemap :: "string \<Rightarrow> string list \<times> string list"
  anchor_hrefs :: "string \<Rightarrow> string list"
  urljoin :: "string \<Rightarrow> string \<Rightarrow> string"
  title_text :: "string \<Rightarrow> string option"
  meta_description :: "string \<Rightarrow> string option"
  og_description :: "string \<Rightarrow> string option"
  block_texts :: "string \<Rightarrow> string list"

text \<open>
  The state a crawl threads through its requests: the network, and every request made
  so far with its outcome, oldest first.
\<close>

record 'w crawl_state =
  world :: 'w
  exchanges :: "(string \<times> response) list"

text \<open>
  How a method of the crawler ends: it returns a value, or an exception that nothing
  in it catches leaves it; either way the state is the one reached by then.
\<close>

datatype ('a, 'w) outcome = Returns 'a "'w crawl_state" | Raises "'w crawl_state"

fun state_of :: "('a, 'w) outcome \<Rightarrow> 'w crawl_state" where
  "state_of (Returns x s) = s"
| "state_of (Raises s) = s"

text \<open>The list a call returned; a call that raised returned nothing.\<close>

fun returned :: "('a list, 'w) outcome \<Rightarrow> 'a list" where
  "returned (Returns xs s) = xs"
| "returned (Raises s) = []"

text \<open>
  \<^verbatim>\<open>_fetch\<close> (crawler.py 125-133, app.py 96-103): the body, \<^verbatim>\<open>None\<close> in the handler
  of \<^verbatim>\<open>except httpx.HTTPError\<close>, and any other exception passed on.
\<close>

definition fetch :: "'w env \<Rightarrow> 'w crawl_state \<Rightarrow> string \<Rightarrow> (string option, 'w) outcome" where
  "fetch E s u =
     (case http_get E (world s) u of
        (r, w') \<Rightarrow>
          (let s1 = \<lparr>world = w', exchanges = exchanges s @ [(u, r)]\<rparr> in
           case r of
             Body b \<Rightarrow> Returns (Some b) s1
           | HTTPError \<Rightarrow> Returns None s1
           | OtherError \<Rightarrow> Raises s1))"

text \<open>
  For comparison with the crawler's loops: what the network answers when the URLs of a
  list are requested one after the other, each in the state the one before left, and
  the state after the last.
\<close>

fun replay :: "'w env \<Rightarrow> 'w \<Rightarrow> string list \<Rightarrow> (string \<times> response) list \<times> 'w" where
  "replay E w [] = ([], w)"
| "replay E w (u # us) =
     (case http_get E w u of
        (r, w1) \<Rightarrow> (case replay E w1 us of (xs, w2) \<Rightarrow> ((u, r) # xs, w2)))"

text \<open>What \<^verbatim>\<open>_fetch\<close> hands to its caller for an outcome that it does not pass on.\<close>

fun content_of :: "response \<Rightarrow> string option" where
  "content_of (Body b) = Some b"
| "content_of HTTPError = None"
| "content_of OtherError = None"

section \<open>The sitemap resolver\<close>

text \<open>\<^verbatim>\<open>str.splitlines\<close> and \<^verbatim>\<open>str.lower\<close> on the code points below 256.\<close>

definition is_linebreak :: "char \<Rightarrow> bool" where
  "is_linebreak c = ((of_char c :: nat) \<in> {10, 11, 12, 13, 28, 29, 30, 133})"

fun splitlines_acc :: "string \<Rightarrow> string \<Rightarrow> string list" where
  "splitlines_acc cur [] = (if cur = [] then [] else [cur])"
| "splitlines_acc cur [c] = (if is_linebreak c then [cur] else [cur @ [c]])"
| "splitlines_acc cur (c # d # cs) =
     (if c = CHR 0x0D \<and> d = CHR 0x0A then cur # splitlines_acc [] cs
      else if is_linebreak c then cur # splitlines_acc [] (d # cs)
      else splitlines_acc (cur @ [c]) (d # cs))"

definition splitlines :: "string \<Rightarrow> string list" where
  "splitlines s = splitlines_acc [] s"

definition lower_char :: "char \<Rightarrow> char" where
  "lower_char c =
     (let n = (of_char c :: nat) in
      if (65 \<le> n \<and> n \<le> 90) \<or> (192 \<le> n \<and> n \<le> 222 \<and> n \<noteq> 215) then char_of (n + 32) else c)"

text \<open>
  \<^verbatim>\<open>RobotsTxtParser.find_sitemaps\<close> (crawler.py 71-81) and
  \<^verbatim>\<open>_find_sitemaps_in_robots\<close> (app.py 128-136).
\<close>

fun find_sitemaps_lines :: "string list \<Rightarrow> string list" where
  "find_sitemaps_lines [] = []"
| "find_sitemaps_lines (l # ls) =
     (let line = strip l in
      if prefix ''sitemap:'' (map lower_char line)
      then (let sitemap_url = strip (drop 1 (dropWhile (\<lambda>c. c \<noteq> CHR '':'') line)) in
            if sitemap_url \<noteq> [] then sitemap_url # find_sitemaps_lines ls
            else find_sitemaps_lines ls)
      else find_sitemaps_lines ls)"

definition find_sitemaps :: "string \<Rightarrow> string list" where
  "find_sitemaps robots_content = find_sitemaps_lines (splitlines robots_content)"

definition SITEMAP_VARIATIONS :: "string list" where
  "SITEMAP_VARIATIONS =
     [''/sitemap.xml'', ''/sitemap_index.xml'', ''/sitemap-index.xml'', ''/sitemaps.xml'',
      ''/sitemap1.xml'', ''/sitemap/sitemap.xml'', ''/wp-sitemap.xml'', ''/post-sitemap.xml'',
      ''/page-sitemap.xml'']"

text \<open>
  The test \<^verbatim>\<open>content and ('<urlset' in content or '<sitemapindex' in content)\<close> on what
  \<^verbatim>\<open>_fetch\<close> returned.
\<close>

definition looks_like_sitemap :: "string option \<Rightarrow> bool" where
  "looks_like_sitemap r =
     (case r of None \<Rightarrow> False
      | Some content \<Rightarrow>
          content \<noteq> [] \<and> (contains ''<urlset'' content \<or> contains ''<sitemapindex'' content))"

text \<open>
  \<^verbatim>\<open>_try_sitemap_variations\<close> (crawler.py 141-154; the same loop stands in
  \<^verbatim>\<open>discover_and_crawl\<close>, app.py 264-272). The loop over the patterns leaves at the
  \<^verbatim>\<open>break\<close> with the one URL it appended.
\<close>

fun try_patterns :: "'w env \<Rightarrow> string \<Rightarrow> string list \<Rightarrow> 'w crawl_state \<Rightarrow> (string list, 'w) outcome" where
  "try_patterns E base_url [] s = Returns [] s"
| "try_patterns E base_url (pattern # patterns) s =
     (let sitemap_url = base_url @ pattern in
      case fetch E s sitemap_url of
        Raises s1 \<Rightarrow> Raises s1
      | Returns content s1 \<Rightarrow>
          if looks_like_sitemap content then Returns [sitemap_url] s1
          else try_patterns E base_url patterns s1)"

definition try_sitemap_variations :: "'w env \<Rightarrow> string \<Rightarrow> 'w crawl_state \<Rightarrow> (string list, 'w) outcome" where
  "try_sitemap_variations E base_url s = try_patterns E base_url SITEMAP_VARIATIONS s"

section \<open>The sitemap expander\<close>

text \<open>
  \<^verbatim>\<open>_crawl_sitemaps\<close> (crawler.py 156-177, app.py 190-210): the depth test at the entry,
  then the loop over the sitemap URLs with its accumulator \<^verbatim>\<open>all_urls\<close>. The depth is 0
  at the only outside call and \<^verbatim>\<open>depth + 1\<close> at the recursive one, so it is a natural
  number.
\<close>

function crawl_sitemaps :: "'w env \<Rightarrow> string list \<Rightarrow> nat \<Rightarrow> 'w crawl_state \<Rightarrow> (string list, 'w) outcome"
  and crawl_sitemaps_loop :: "'w env \<Rightarrow> string list \<Rightarrow> nat \<Rightarrow> string list \<Rightarrow> 'w crawl_state \<Rightarrow> (string list, 'w) outcome"
  where
  "crawl_sitemaps E sitemap_urls depth s =
     (if depth > 3 then Returns [] s else crawl_sitemaps_loop E sitemap_urls depth [] s)"
| "crawl_sitemaps_loop E [] depth all_urls s = Returns all_urls s"
| "crawl_sitemaps_loop E (sitemap_url # rest) depth all_urls s =
     (case fetch E s sitemap_url of
        Raises s1 \<Rightarrow> Raises s1
      | Returns None s1 \<Rightarrow> crawl_sitemaps_loop E rest depth all_urls s1
      | Returns (Some content) s1 \<Rightarrow>
          if content = [] then crawl_sitemaps_loop E rest depth all_urls s1
          else (case parse_sitemap E content of
            (urls, nested_sitemaps) \<Rightarrow>
              if nested_sitemaps \<noteq> []
              then (case crawl_sitemaps E nested_sitemaps (depth + 1) s1 of
                  Raises s2 \<Rightarrow> Raises s2
                | Returns below s2 \<Rightarrow>
                    crawl_sitemaps_loop E rest depth (all_urls @ urls @ below) s2)
              else crawl_sitemaps_loop E rest depth (all_urls @ urls) s1))"
  by pat_completeness auto
termination
  by (relation "measures
       [\<lambda>x. case x of
               Inl (E, us, d, s) \<Rightarrow> (if d > 3 then 0 else 2 * (4 - d))
             | Inr (E, us, d, a, s) \<Rightarrow> (if d > 3 then 1 else 2 * (4 - d) - 1),
        \<lambda>x. case x of
               Inl (E, us, d, s) \<Rightarrow> length us
             | Inr (E, us, d, a, s) \<Rightarrow> length us]") auto

section \<open>The link extractor\<close>

text \<open>
  \<^verbatim>\<open>_extract_links_from_html\<close> (crawler.py 179-201, app.py 138-153). The test on the
  \<^verbatim>\<open>href\<close> is \<^verbatim>\<open>href.startswith(('#', 'javascript:', 'mailto:', 'tel:'))\<close>; the
  fragment is cut by \<^verbatim>\<open>full_url.split('#')[0]\<close>.
\<close>

definition skipped_href :: "string \<Rightarrow> bool" where
  "skipped_href href =
     (prefix ''#'' href \<or> prefix ''javascript:'' href \<or> prefix ''mailto:'' href \<or>
      prefix ''tel:'' href)"

definition full_url_of :: "'w env \<Rightarrow> string \<Rightarrow> string \<Rightarrow> string" where
  "full_url_of E page_url href = takeWhile (\<lambda>c. c \<noteq> CHR ''#'') (urljoin E page_url href)"

fun extract_links_loop :: "crawler \<Rightarrow> 'w env \<Rightarrow> string \<Rightarrow> string \<Rightarrow> string list \<Rightarrow> string list \<Rightarrow> string list" where
  "extract_links_loop C E base_url page_url found [] = found"
| "extract_links_loop C E base_url page_url found (href # hrefs) =
     (if skipped_href href then extract_links_loop C E base_url page_url found hrefs
      else (let full_url = full_url_of E page_url href in
            if is_same_domain C base_url full_url \<and> full_url \<notin> set found
            then extract_links_loop C E base_url page_url (found @ [full_url]) hrefs
            else extract_links_loop C E base_url page_url found hrefs))"

definition extract_links_from_html :: "crawler \<Rightarrow> 'w env \<Rightarrow> string \<Rightarrow> string \<Rightarrow> string \<Rightarrow> string list" where
  "extract_links_from_html C E base_url html page_url =
     extract_links_loop C E base_url page_url [] (anchor_hrefs E html)"

text \<open>
  The specification's wording of the same, for comparison: a list with its repetitions
  removed, the first occurrence of each element kept in place.
\<close>

fun first_seen :: "'a list \<Rightarrow> 'a list" where
  "first_seen [] = []"
| "first_seen (x # xs) = x # removeAll x (first_seen xs)"

text \<open>
  The links a document keeps, before repetitions are removed: the hrefs that are not
  skipped, resolved against the page and cut at the fragment, that pass the same-domain test.
\<close>

definition kept_links :: "crawler \<Rightarrow> 'w env \<Rightarrow> string \<Rightarrow> string \<Rightarrow> string list \<Rightarrow> string list" where
  "kept_links C E base_url page_url hrefs =
     filter (is_same_domain C base_url)
       (map (full_url_of E page_url) (filter (\<lambda>h. \<not> skipped_href h) hrefs))"

text \<open>\<^verbatim>\<open>_extract_page_info\<close> (crawler.py 203-242, app.py 155-188).\<close>

fun first_preview :: "string list \<Rightarrow> string" where
  "first_preview [] = []"
| "first_preview (t # ts) =
     (if length t > 100 then (if length t > 500 then take 500 t @ ''...'' else t)
      else first_preview ts)"

definition extract_page_info :: "crawler \<Rightarrow> 'w env \<Rightarrow> string \<Rightarrow> string \<Rightarrow> string \<Rightarrow> page_info" where
  "extract_page_info C E base_url u html =
     (let t = (case title_text E html of None \<Rightarrow> [] | Some x \<Rightarrow> x);
          d0 = (case meta_description E html of None \<Rightarrow> [] | Some x \<Rightarrow> x);
          d = (if d0 = [] then (case og_description E html of None \<Rightarrow> [] | Some x \<Rightarrow> x) else d0)
      in \<lparr>url = u, title = t, description = d,
          content_preview = first_preview (block_texts E html),
          links = extract_links_from_html C E base_url html u\<rparr>)"

section \<open>The frontier crawler\<close>

text \<open>
  \<^verbatim>\<open>_crawl_from_homepage\<close> (crawler.py 244-273, app.py 212-239): the \<^verbatim>\<open>while\<close> loop
  over the queue \<^verbatim>\<open>urls_to_visit\<close>, the set \<^verbatim>\<open>visited\<close> and the list \<^verbatim>\<open>discovered\<close>.
\<close>

fun enqueue_links :: "string set \<Rightarrow> string list \<Rightarrow> string list \<Rightarrow> string list" where
  "enqueue_links visited urls_to_visit [] = urls_to_visit"
| "enqueue_links visited urls_to_visit (link # others) =
     (if link \<notin> visited \<and> link \<notin> set urls_to_visit
      then enqueue_links visited (urls_to_visit @ [link]) others
      else enqueue_links visited urls_to_visit others)"

function homepage_loop :: "crawler \<Rightarrow> 'w env \<Rightarrow> string \<Rightarrow> int \<Rightarrow> string list \<Rightarrow> string set \<Rightarrow> string list \<Rightarrow> 'w crawl_state \<Rightarrow> (string list, 'w) outcome" where
  "homepage_loop C E base_url max_urls urls_to_visit visited discovered s =
     (if urls_to_visit \<noteq> [] \<and> int (length discovered) < max_urls then
        (let current_url = hd urls_to_visit; queue = tl urls_to_visit in
         if current_url \<in> visited
         then homepage_loop C E base_url max_urls queue visited discovered s
         else (case fetch E s current_url of
            Raises s1 \<Rightarrow> Raises s1
          | Returns None s1 \<Rightarrow>
              homepage_loop C E base_url max_urls queue (insert current_url visited) discovered s1
          | Returns (Some html) s1 \<Rightarrow>
              if html = []
              then homepage_loop C E base_url max_urls queue (insert current_url visited)
                     discovered s1
              else homepage_loop C E base_url max_urls
                     (enqueue_links (insert current_url visited) queue
                        (extract_links_from_html C E base_url html current_url))
                     (insert current_url visited) (discovered @ [current_url]) s1))
      else Returns discovered s)"
  by pat_completeness auto
termination
  by (relation "measures
       [\<lambda>(C, E, b, m, q, v, d, s). nat (m - int (length d)),
        \<lambda>(C, E, b, m, q, v, d, s). length q]") auto

declare homepage_loop.simps [simp del]

definition crawl_from_homepage :: "crawler \<Rightarrow> 'w env \<Rightarrow> string \<Rightarrow> int \<Rightarrow> 'w crawl_state \<Rightarrow> (string list, 'w) outcome" where
  "crawl_from_homepage C E base_url max_urls s =
     homepage_loop C E base_url max_urls [base_url] {} [] s"

section \<open>The discovery orchestrator\<close>

text \<open>
  \<^verbatim>\<open>discover_urls\<close> (crawler.py 275-306; app.py 251-286 is the same sequence inside
  \<^verbatim>\<open>discover_and_crawl\<close>). \<open>base_url\<close> is the crawler's normalized base, \<open>max_urls\<close> the
  integer the caller passed. No step catches an exception, so one that leaves a step
  leaves the whole method.
\<close>

definition discover_urls :: "crawler \<Rightarrow> 'w env \<Rightarrow> string \<Rightarrow> int \<Rightarrow> 'w crawl_state \<Rightarrow> (string list, 'w) outcome" where
  "discover_urls C E base_url max_urls s =
     (case fetch E s (base_url @ ''/robots.txt'') of
        Raises s1 \<Rightarrow> Raises s1
      | Returns robots_content s1 \<Rightarrow>
          (let in_robots = (case robots_content of None \<Rightarrow> []
                            | Some c \<Rightarrow> if c = [] then [] else find_sitemaps c) in
           case (if in_robots = [] then try_sitemap_variations E base_url s1
                 else Returns in_robots s1) of
             Raises s2 \<Rightarrow> Raises s2
           | Returns sitemap_urls s2 \<Rightarrow>
               (case (if sitemap_urls \<noteq> [] then crawl_sitemaps E sitemap_urls 0 s2
                      else Returns [] s2) of
                  Raises s3 \<Rightarrow> Raises s3
                | Returns from_sitemaps s3 \<Rightarrow>
                    (case (if from_sitemaps = []
                           then crawl_from_homepage C E base_url max_urls s3
                           else Returns from_sitemaps s3) of
                       Raises s4 \<Rightarrow> Raises s4
                     | Returns all_urls s4 \<Rightarrow>
                         Returns (slice_to max_urls (fromkeys all_urls)) s4))))"

text \<open>
  \<^verbatim>\<open>crawl_pages\<close> (crawler.py 308-321; app.py 290-297 is the same loop): the loop over
  the URLs with its accumulator \<^verbatim>\<open>pages\<close>.
\<close>

fun crawl_pages_loop :: "crawler \<Rightarrow> 'w env \<Rightarrow> string \<Rightarrow> page_info list \<Rightarrow> string list \<Rightarrow> 'w crawl_state \<Rightarrow> (page_info list, 'w) outcome" where
  "crawl_pages_loop C E base_url pages [] s = Returns pages s"
| "crawl_pages_loop C E base_url pages (u # urls) s =
     (case fetch E s u of
        Raises s1 \<Rightarrow> Raises s1
      | Returns None s1 \<Rightarrow> crawl_pages_loop C E base_url pages urls s1
      | Returns (Some html) s1 \<Rightarrow>
          if html = [] then crawl_pages_loop C E base_url pages urls s1
          else crawl_pages_loop C E base_url
                 (pages @ [extract_page_info C E base_url u html]) urls s1)"

definition crawl_pages :: "crawler \<Rightarrow> 'w env \<Rightarrow> string \<Rightarrow> string list \<Rightarrow> 'w crawl_state \<Rightarrow> (page_info list, 'w) outcome" where
  "crawl_pages C E base_url urls s = crawl_pages_loop C E base_url [] urls s"


text \<open>
  \<^verbatim>\<open>discover_and_crawl\<close> (app.py 241-300), and \<^verbatim>\<open>discover_urls\<close> followed by
  \<^verbatim>\<open>crawl_pages\<close> as main.py 60-68 calls them: the constructor normalizes the base, the
  URLs are discovered, and each is fetched and extracted.
\<close>

definition discover_and_crawl :: "crawler \<Rightarrow> 'w env \<Rightarrow> string \<Rightarrow> int \<Rightarrow> 'w crawl_state \<Rightarrow> (page_info list, 'w) outcome" where
  "discover_and_crawl C E raw max_urls s =
     (let base_url = normalize_url raw in
      case discover_urls C E base_url max_urls s of
        Raises s1 \<Rightarrow> Raises s1
      | Returns unique_urls s1 \<Rightarrow> crawl_pages C E base_url unique_urls s1)"

section \<open>The document generator\<close>

text \<open>
  The two bullet blocks of \<^verbatim>\<open>generate_llms_txt\<close> (app.py 344-353 and 358-369) and the
  body of its loop over the categories (app.py 341-371).
\<close>

definition shown_title :: "page_info \<Rightarrow> string" where
  "shown_title p =
     (if title p \<noteq> [] then strip (split_first '' - '' (split_first '' | '' (title p)))
      else url p)"

definition cut_title :: "string \<Rightarrow> string" where
  "cut_title t = (if length t > 80 then take 77 t @ ''...'' else t)"

definition cut_description :: "string \<Rightarrow> string" where
  "cut_description d = (if length d > 200 then take 200 d @ ''...'' else d)"

definition link_title_main :: "page_info \<Rightarrow> string" where
  "link_title_main p = cut_title (shown_title p)"

definition link_title_category :: "page_info \<Rightarrow> string" where
  "link_title_category p =
     (let t = cut_title (shown_title p) in
      if t = [] then (let seg = split_last CHR ''/'' (url p) in if seg \<noteq> [] then seg else ''Page'')
      else t)"

definition bullet :: "string \<Rightarrow> page_info \<Rightarrow> string" where
  "bullet t p =
     (let link = ''- ['' @ t @ '']('' @ url p @ '')'' in
      if description p \<noteq> [] then link @ '': '' @ cut_description (description p) else link)"

definition category_lines :: "string \<Rightarrow> page_info list \<Rightarrow> string list" where
  "category_lines category cat_pages =
     (if category = ''Main'' \<and> length cat_pages = 1
      then [bullet (link_title_main (hd cat_pages)) (hd cat_pages)]
      else [''## '' @ category, []] @
           map (\<lambda>p. bullet (link_title_category p) p) (sort_key url cat_pages) @ [[]])"

section \<open>Example inputs\<close>

text \<open>Pages and collaborators at which the properties below are evaluated.\<close>

definition untitled_page :: page_info where
  "untitled_page =
     \<lparr>url = ''https://x.com/blog/a'', title = [], description = [],
      content_preview = [], links = []\<rparr>"

definition separator_title_page :: page_info where
  "separator_title_page =
     \<lparr>url = ''https://x.com/blog/a'', title = '' | Acme'', description = [],
      content_preview = [], links = []\<rparr>"

definition long_description_page :: page_info where
  "long_description_page =
     \<lparr>url = ''https://x.com'', title = ''Acme'', description = replicate 201 CHR ''d'',
      content_preview = [], links = []\<rparr>"

definition start_state :: "unit crawl_state" where
  "start_state = \<lparr>world = (), exchanges = []\<rparr>"

text \<open>A site whose every document is a sitemap index that names itself.\<close>

definition cyclic_env :: "unit env" where
  "cyclic_env =
     \<lparr>http_get = (\<lambda>w u. (Body ''<sitemapindex>'', w)),
      parse_sitemap = (\<lambda>c. ([''https://x.com/page''], [''https://x.com/sitemap.xml''])),
      anchor_hrefs = (\<lambda>h. []),
      urljoin = (\<lambda>b h. h),
      title_text = (\<lambda>h. None),
      meta_description = (\<lambda>h. None),
      og_description = (\<lambda>h. None),
      block_texts = (\<lambda>h. [])\<rparr>"

text \<open>A site whose every document is a sitemap of two pages.\<close>

definition leaves_env :: "unit env" where
  "leaves_env =
     \<lparr>http_get = (\<lambda>w u. (Body ''<urlset>'', w)),
      parse_sitemap = (\<lambda>c. ([''https://x.com/a'', ''https://x.com/b''], [])),
      anchor_hrefs = (\<lambda>h. []),
      urljoin = (\<lambda>b h. h),
      title_text = (\<lambda>h. None),
      meta_description = (\<lambda>h. None),
      og_description = (\<lambda>h. None),
      block_texts = (\<lambda>h. [])\<rparr>"


definition flaky_start :: "nat crawl_state" where
  "flaky_start = \<lparr>world = 0, exchanges = []\<rparr>"

text \<open>
  A page with two absolute links, which \<^verbatim>\<open>urljoin\<close> leaves as they are.
\<close>

definition two_links_env :: "unit env" where
  "two_links_env =
     \<lparr>http_get = (\<lambda>w u. (Body ''<html>'', w)),
      parse_sitemap = (\<lambda>c. ([], [])),
      anchor_hrefs = (\<lambda>h. [''https://docs.www.x.com/a'', ''https://www.x.com/a#top'']),
      urljoin = (\<lambda>b h. h),
      title_text = (\<lambda>h. None),
      meta_description = (\<lambda>h. None),
      og_description = (\<lambda>h. None),
      block_texts = (\<lambda>h. [])\<rparr>"

text \<open>
  A site that counts its requests, answers \<^verbatim>\<open>/sitemap.xml\<close> with a status that is not
  2xx and everything else with a sitemap index.
\<close>

definition probe_env :: "nat env" where
  "probe_env =
     \<lparr>http_get = (\<lambda>w u.
         (if u = ''https://x.com/sitemap.xml'' then HTTPError else Body ''<sitemapindex>'', Suc w)),
      parse_sitemap = (\<lambda>c. ([], [])),
      anchor_hrefs = (\<lambda>h. []),
      urljoin = (\<lambda>b h. h),
      title_text = (\<lambda>h. None),
      meta_description = (\<lambda>h. None),
      og_description = (\<lambda>h. None),
      block_texts = (\<lambda>h. [])\<rparr>"

section \<open>Properties of the URL normalizer\<close>

lemma rstrip_char_append:
  "\<exists>x\<in>set b. x \<noteq> c \<Longrightarrow> rstrip_char c (a @ b) = a @ rstrip_char c b"
  by (induction b rule: rev_induct) (auto simp: rstrip_char_def)

lemma rstrip_char_idem: "rstrip_char c (rstrip_char c s) = rstrip_char c s"
  by (induction s rule: rev_induct) (auto simp: rstrip_char_def)

lemma rstrip_char_all: "\<forall>x\<in>set b. x = c \<Longrightarrow> rstrip_char c (a @ b) = rstrip_char c a"
  by (induction b rule: rev_induct) (auto simp: rstrip_char_def)

lemma normalize_url_scheme:
  "\<exists>sch. (sch = ''http://'' \<or> sch = ''https://'') \<and>
         normalize_url u = rstrip_char CHR ''/'' (sch @ after_scheme u)"
proof (cases "prefix ''http://'' u")
  case True
  then obtain zs where "u = ''http://'' @ zs"
    unfolding prefix_def by blast
  then have "normalize_url u = rstrip_char CHR ''/'' (''http://'' @ after_scheme u)"
    by (simp add: normalize_url_def after_scheme_def)
  then show ?thesis by blast
next
  case False
  show ?thesis
  proof (cases "prefix ''https://'' u")
    case True
    then obtain zs where "u = ''https://'' @ zs"
      unfolding prefix_def by blast
    then have "normalize_url u = rstrip_char CHR ''/'' (''https://'' @ after_scheme u)"
      by (simp add: normalize_url_def after_scheme_def)
    then show ?thesis by blast
  next
    case no: False
    with False have "normalize_url u = rstrip_char CHR ''/'' (''https://'' @ after_scheme u)"
      by (simp add: normalize_url_def after_scheme_def)
    then show ?thesis by blast
  qed
qed

lemma normalize_url_keeps_scheme:
  assumes "prefix ''http://'' r \<or> prefix ''https://'' r"
  shows "normalize_url r = rstrip_char CHR ''/'' r"
  using assms by (auto simp: normalize_url_def)

text \<open>
  Claim C5, as the code has it: \<^const>\<open>normalize_url\<close> is idempotent at an input exactly
  when the input has a character other than \<^verbatim>\<open>/\<close> after its \<^verbatim>\<open>http://\<close> or
  \<^verbatim>\<open>https://\<close> prefix (after its start, when it has no such prefix). Where there are only
  slashes, \<^verbatim>\<open>rstrip('/')\<close> eats the slashes of the scheme, and the second call prepends
  \<^verbatim>\<open>https://\<close> to what is left.
\<close>

theorem normalize_url_idempotent_iff:
  "(normalize_url (normalize_url u) = normalize_url u) =
   (\<exists>c\<in>set (after_scheme u). c \<noteq> CHR ''/'')"
proof -
  obtain sch where sch: "sch = ''http://'' \<or> sch = ''https://''"
    and n: "normalize_url u = rstrip_char CHR ''/'' (sch @ after_scheme u)"
    using normalize_url_scheme by blast
  show ?thesis
  proof (cases "\<exists>c\<in>set (after_scheme u). c \<noteq> CHR ''/''")
    case True
    then have r: "normalize_url u = sch @ rstrip_char CHR ''/'' (after_scheme u)"
      using n by (simp add: rstrip_char_append)
    then have "prefix ''http://'' (normalize_url u) \<or> prefix ''https://'' (normalize_url u)"
      using sch by auto
    then have "normalize_url (normalize_url u) = rstrip_char CHR ''/'' (normalize_url u)"
      by (rule normalize_url_keeps_scheme)
    also have "\<dots> = normalize_url u"
      unfolding n by (rule rstrip_char_idem)
    finally show ?thesis using True by simp
  next
    case False
    then have "normalize_url u = rstrip_char CHR ''/'' sch"
      using n by (simp add: rstrip_char_all)
    then have "normalize_url u = ''http:'' \<or> normalize_url u = ''https:''"
      using sch by (auto simp: rstrip_char_def)
    moreover have "normalize_url ''http:'' = ''https://http:''"
      and "normalize_url ''https:'' = ''https://https:''"
      by (simp_all add: normalize_url_def rstrip_char_def)
    ultimately have "normalize_url (normalize_url u) \<noteq> normalize_url u"
      by fastforce
    then show ?thesis using False by simp
  qed
qed

theorem normalize_url_idempotent_witness:
  "normalize_url (normalize_url ''example.com/docs//'') = normalize_url ''example.com/docs//''"
  using normalize_url_idempotent_iff [of "''example.com/docs//''"]
  by (simp add: after_scheme_def)

text \<open>
  Claim C5 as stated fails: \<^verbatim>\<open>normalize("http://")\<close> is \<^verbatim>\<open>"http:"\<close>, and normalizing
  that gives \<^verbatim>\<open>"https://http:"\<close>.
\<close>

theorem normalize_url_not_idempotent:
  "normalize_url ''http://'' = ''http:'' \<and>
   normalize_url (normalize_url ''http://'') = ''https://http:''"
  by (simp add: normalize_url_def rstrip_char_def)

section \<open>Properties of the same-domain test\<close>

text \<open>
  Claim C1 at two inputs. \<^verbatim>\<open>AsyncWebCrawler\<close> removes every \<^verbatim>\<open>www.\<close> of a host, not a
  leading one only, so it takes \<^verbatim>\<open>docs.www.x.com\<close> and \<^verbatim>\<open>docs.x.com\<close> for one domain,
  which the specified test tells apart; \<^verbatim>\<open>WebCrawler\<close> strips nothing, so it tells
  \<^verbatim>\<open>www.x.com\<close> from \<^verbatim>\<open>x.com\<close>, which the specified test identifies.
\<close>

theorem is_same_domain_differs_from_spec:
  "is_same_domain AsyncWebCrawler ''https://docs.x.com'' ''https://docs.www.x.com/a'' \<and>
   \<not> same_domain_spec ''https://docs.x.com'' ''https://docs.www.x.com/a'' \<and>
   \<not> is_same_domain WebCrawler ''https://x.com'' ''https://www.x.com/a'' \<and>
   same_domain_spec ''https://x.com'' ''https://www.x.com/a''"
  by (simp add: same_domain_spec_def strip_leading_www_def netloc_def drop_scheme_def
      is_alpha_def is_scheme_char_def Let_def)

section \<open>Properties of the page extractor\<close>

lemma first_preview_find:
  "first_preview ts =
     (case find (\<lambda>t. 100 < length t) ts of
        None \<Rightarrow> []
      | Some t \<Rightarrow> if 500 < length t then take 500 t @ ''...'' else t)"
  by (induction ts) simp_all

lemma first_preview_length:
  "first_preview ts = [] \<or> (100 < length (first_preview ts) \<and> length (first_preview ts) \<le> 503)"
  by (induction ts) auto

text \<open>
  Claim C10: the content preview of the record \<^const>\<open>extract_page_info\<close> returns is
  empty when no \<^verbatim>\<open>p\<close>, \<^verbatim>\<open>article\<close> or \<^verbatim>\<open>main\<close> text is longer than 100 characters;
  otherwise it is the first such text, whole when it has at most 500 characters, and its
  first 500 characters followed by \<^verbatim>\<open>...\<close> when it has more. So the preview is empty or
  has more than 100 and at most 503 characters.
\<close>

theorem content_preview_bounds:
  "(case find (\<lambda>t. 100 < length t) (block_texts E html) of
      None \<Rightarrow> content_preview (extract_page_info C E base_url u html) = []
    | Some t \<Rightarrow>
        content_preview (extract_page_info C E base_url u html) =
          (if 500 < length t then take 500 t @ ''...'' else t)) \<and>
   (content_preview (extract_page_info C E base_url u html) = [] \<or>
    (100 < length (content_preview (extract_page_info C E base_url u html)) \<and>
     length (content_preview (extract_page_info C E base_url u html)) \<le> 503))"
proof -
  have cp: "content_preview (extract_page_info C E base_url u html) =
      first_preview (block_texts E html)"
    by (simp add: extract_page_info_def Let_def)
  show ?thesis
    unfolding cp using first_preview_length [of "block_texts E html"]
    by (simp add: first_preview_find split: option.splits)
qed

section \<open>Properties of the document generator\<close>

text \<open>
  Claim C6, as the code has it. The title of a bullet is the shown title (the page title
  cut at \<^verbatim>\<open> | \<close> and \<^verbatim>\<open> - \<close> and stripped, or the URL), whole when it has at most 80
  characters and otherwise its first 77 characters followed by \<^verbatim>\<open>...\<close>, 80 characters
  in all (a heading category replaces an empty title by the last URL segment or
  \<^verbatim>\<open>Page\<close>). The description is emitted whole when it has at most 200 characters,
  and otherwise as its first 200 characters followed by \<^verbatim>\<open>...\<close>: 203 characters.
\<close>

theorem bullet_truncation:
  "link_title_main p =
     (if 80 < length (shown_title p) then take 77 (shown_title p) @ ''...'' else shown_title p) \<and>
   link_title_category p =
     (if 80 < length (shown_title p) then take 77 (shown_title p) @ ''...''
      else if shown_title p = []
        then (if split_last CHR ''/'' (url p) = [] then ''Page'' else split_last CHR ''/'' (url p))
        else shown_title p) \<and>
   length (link_title_main p) \<le> 80 \<and>
   bullet t p =
     ''- ['' @ t @ '']('' @ url p @ '')'' @
     (if description p = [] then []
      else '': '' @ (if 200 < length (description p) then take 200 (description p) @ ''...''
                    else description p)) \<and>
   length (cut_description (description p)) =
     (if 200 < length (description p) then 203 else length (description p))"
  by (auto simp: link_title_main_def link_title_category_def cut_title_def bullet_def
      cut_description_def Let_def)

text \<open>
  Claim C6 as stated fails for the description: one of 201 characters is emitted as 200
  characters and the ellipsis, 203 characters and not at most 200.
\<close>

theorem description_longer_than_200:
  "length (description long_description_page) = 201 \<and>
   category_lines ''Main'' [long_description_page] =
     [''- [Acme](https://x.com): '' @ replicate 200 CHR ''d'' @ ''...''] \<and>
   length (replicate 200 CHR ''d'' @ ''...'') = 203"
  by (simp add: long_description_page_def category_lines_def bullet_def cut_description_def
      link_title_main_def cut_title_def shown_title_def strip_def is_space_def Let_def)

text \<open>
  Claim C2 as stated fails: the bullet of a page with an empty title, under a heading
  category, carries the whole URL as its link title, not the last path segment \<^verbatim>\<open>a\<close>.
\<close>

theorem untitled_bullet_shows_url:
  "title untitled_page = [] \<and>
   split_last CHR ''/'' (url untitled_page) = ''a'' \<and>
   category_lines ''Blog'' [untitled_page] =
     [''## Blog'', [], ''- [https://x.com/blog/a](https://x.com/blog/a)'', []]"
  by (simp add: untitled_page_def category_lines_def bullet_def split_last_def
      link_title_category_def cut_title_def shown_title_def Let_def)

text \<open>
  Claim C2, as the code has it: for a page \<open>p\<close> with an empty title (and a URL), the
  link title of both bullet forms is the URL, cut like any title; the last path segment of
  the URL, or \<^verbatim>\<open>Page\<close> when that is empty, is the link title of a heading category's
  bullet for a page \<open>q\<close> whose shown title is empty.
\<close>

theorem title_fallback:
  "(title p = [] \<and> url p \<noteq> [] \<longrightarrow>
      link_title_main p = cut_title (url p) \<and> link_title_category p = cut_title (url p)) \<and>
   (shown_title q = [] \<longrightarrow>
      link_title_category q =
        (if split_last CHR ''/'' (url q) = [] then ''Page'' else split_last CHR ''/'' (url q)))"
  by (auto simp: link_title_main_def link_title_category_def cut_title_def shown_title_def Let_def)

theorem title_fallback_witness:
  "(title untitled_page = [] \<and> url untitled_page \<noteq> []) \<and>
   link_title_main untitled_page = ''https://x.com/blog/a'' \<and>
   link_title_category untitled_page = ''https://x.com/blog/a'' \<and>
   shown_title separator_title_page = [] \<and>
   link_title_category separator_title_page = ''a''"
  using title_fallback [of untitled_page separator_title_page]
  by (simp add: untitled_page_def separator_title_page_def cut_title_def shown_title_def
      strip_def split_last_def)


section \<open>Properties of the link extractor\<close>

lemma set_first_seen: "set (first_seen xs) = set xs"
  by (induction xs) auto

lemma distinct_first_seen: "distinct (first_seen xs)"
  by (induction xs) (auto simp: distinct_removeAll)

lemma filter_removeAll_member:
  "x \<in> A \<Longrightarrow> filter (\<lambda>y. y \<notin> A) (removeAll x ys) = filter (\<lambda>y. y \<notin> A) ys"
  by (induction ys) auto

lemma filter_removeAll_insert:
  "filter (\<lambda>y. y \<notin> insert x A) ys = filter (\<lambda>y. y \<notin> A) (removeAll x ys)"
  by (induction ys) auto

lemma kept_links_Cons:
  "kept_links C E b pu (h # hs) =
     (if skipped_href h then kept_links C E b pu hs
      else if is_same_domain C b (full_url_of E pu h)
        then full_url_of E pu h # kept_links C E b pu hs
        else kept_links C E b pu hs)"
  by (simp add: kept_links_def)

lemma extract_links_loop_first_seen:
  "extract_links_loop C E b pu found hrefs =
     found @ filter (\<lambda>x. x \<notin> set found) (first_seen (kept_links C E b pu hrefs))"
proof (induction hrefs arbitrary: found)
  case Nil
  show ?case by (simp add: kept_links_def)
next
  case (Cons h hs)
  show ?case
  proof (cases "skipped_href h")
    case True
    then show ?thesis using Cons.IH [of found] by (simp add: kept_links_Cons)
  next
    case False
    let ?f = "full_url_of E pu h"
    show ?thesis
    proof (cases "is_same_domain C b ?f")
      case sd: True
      show ?thesis
      proof (cases "?f \<in> set found")
        case True
        then show ?thesis
          using False sd Cons.IH [of found]
          by (simp add: kept_links_Cons Let_def filter_removeAll_member)
      next
        case nf: False
        have "filter (\<lambda>x. x \<notin> set (found @ [?f])) (first_seen (kept_links C E b pu hs)) =
            filter (\<lambda>x. x \<notin> set found) (removeAll ?f (first_seen (kept_links C E b pu hs)))"
          using filter_removeAll_insert [of ?f "set found"] by simp
        then show ?thesis
          using False sd nf Cons.IH [of "found @ [?f]"]
          by (simp add: kept_links_Cons Let_def)
      qed
    next
      case False
      then show ?thesis
        using \<open>\<not> skipped_href h\<close> Cons.IH [of found] by (simp add: kept_links_Cons Let_def)
    qed
  qed
qed

lemma no_fragment_full_url: "CHR ''#'' \<notin> set (full_url_of E pu h)"
proof
  assume "CHR ''#'' \<in> set (full_url_of E pu h)"
  then show False
    unfolding full_url_of_def by (auto dest: set_takeWhileD)
qed

text \<open>
  What the loop computes: it drops the hrefs that start with \<^verbatim>\<open>#\<close>, \<^verbatim>\<open>javascript:\<close>,
  \<^verbatim>\<open>mailto:\<close> or \<^verbatim>\<open>tel:\<close>, resolves the others against the page URL with \<open>urljoin\<close>,
  cuts each at its first \<^verbatim>\<open>#\<close>, keeps those that pass the test \<^const>\<open>is_same_domain\<close>
  of the crawler's class, and returns each once, in the order of first occurrence.
\<close>

lemma extract_links_from_html_first_seen:
  "extract_links_from_html C E base_url html page_url =
     first_seen
       (filter (is_same_domain C base_url)
          (map (\<lambda>h. takeWhile (\<lambda>c. c \<noteq> CHR ''#'') (urljoin E page_url h))
             (filter (\<lambda>h. \<not> (prefix ''#'' h \<or> prefix ''javascript:'' h \<or>
                               prefix ''mailto:'' h \<or> prefix ''tel:'' h))
                (anchor_hrefs E html)))) \<and>
   distinct (extract_links_from_html C E base_url html page_url) \<and>
   list_all (\<lambda>l. CHR ''#'' \<notin> set l \<and> is_same_domain C base_url l)
     (extract_links_from_html C E base_url html page_url)"
proof -
  let ?hs = "anchor_hrefs E html"
  have eq: "extract_links_from_html C E base_url html page_url =
      first_seen (kept_links C E base_url page_url ?hs)"
    by (simp add: extract_links_from_html_def extract_links_loop_first_seen)
  have k: "kept_links C E base_url page_url ?hs =
      filter (is_same_domain C base_url)
        (map (\<lambda>h. takeWhile (\<lambda>c. c \<noteq> CHR ''#'') (urljoin E page_url h))
           (filter (\<lambda>h. \<not> (prefix ''#'' h \<or> prefix ''javascript:'' h \<or>
                             prefix ''mailto:'' h \<or> prefix ''tel:'' h)) ?hs))"
    unfolding kept_links_def skipped_href_def full_url_of_def by (rule refl)
  have "\<forall>l\<in>set (kept_links C E base_url page_url ?hs).
      CHR ''#'' \<notin> set l \<and> is_same_domain C base_url l"
    unfolding kept_links_def using no_fragment_full_url by auto
  then have "list_all (\<lambda>l. CHR ''#'' \<notin> set l \<and> is_same_domain C base_url l)
      (first_seen (kept_links C E base_url page_url ?hs))"
    by (simp add: list_all_iff set_first_seen)
  then show ?thesis
    using eq k distinct_first_seen [of "kept_links C E base_url page_url ?hs"] by simp
qed


text \<open>
  Claim C7 at two inputs. The links that are kept are those that pass the class's own
  same-domain test, which is not the specified one (claim C1). For the base
  \<^verbatim>\<open>https://docs.x.com\<close>, \<^verbatim>\<open>AsyncWebCrawler\<close> keeps the link to
  \<^verbatim>\<open>https://docs.www.x.com/a\<close>, whose host differs from the base's also after a
  leading \<^verbatim>\<open>www.\<close> is stripped; for the base \<^verbatim>\<open>https://x.com\<close>, \<^verbatim>\<open>WebCrawler\<close>
  drops the link to \<^verbatim>\<open>https://www.x.com/a\<close>, which the specified test accepts.
\<close>

theorem extract_links_keeps_other_domain:
  "extract_links_from_html AsyncWebCrawler two_links_env ''https://docs.x.com'' ''<html>''
     ''https://docs.x.com/index'' = [''https://docs.www.x.com/a''] \<and>
   \<not> same_domain_spec ''https://docs.x.com'' ''https://docs.www.x.com/a'' \<and>
   extract_links_from_html WebCrawler two_links_env ''https://x.com'' ''<html>''
     ''https://x.com/index'' = [] \<and>
   same_domain_spec ''https://x.com'' ''https://www.x.com/a''"
  by (simp add: extract_links_from_html_def two_links_env_def skipped_href_def full_url_of_def
      same_domain_spec_def strip_leading_www_def netloc_def drop_scheme_def
      is_alpha_def is_scheme_char_def Let_def)

section \<open>Properties of the requests\<close>



lemma fetch_OtherError:
  "http_get E (world s) u = (OtherError, w) \<Longrightarrow>
   fetch E s u = Raises \<lparr>world = w, exchanges = exchanges s @ [(u, OtherError)]\<rparr>"
  by (simp add: fetch_def)

lemma fetch_exchanges:
  "\<exists>r. exchanges (state_of (fetch E s u)) = exchanges s @ [(u, r)]"
  by (cases "http_get E (world s) u"; cases "fst (http_get E (world s) u)")
    (auto simp: fetch_def)

lemma replay_Cons:
  "http_get E w u = (r, w1) \<Longrightarrow>
   replay E w (u # us) = ((u, r) # fst (replay E w1 us), snd (replay E w1 us))"
  by (simp split: prod.splits)

lemma map_fst_replay: "map fst (fst (replay E w us)) = us"
proof (induction us arbitrary: w)
  case Nil
  show ?case by simp
next
  case (Cons u us)
  obtain r w1 where g: "http_get E w u = (r, w1)"
    by (cases "http_get E w u")
  show ?case
    unfolding replay_Cons [OF g] using Cons.IH [of w1] by simp
qed

lemma length_replay: "length (fst (replay E w us)) = length us"
  using map_fst_replay [of E w us] by (metis length_map)

section \<open>Properties of the extraction loop\<close>





section \<open>Properties of the sitemap probe\<close>

lemma try_patterns_replay:
  "pats \<noteq> [] \<Longrightarrow>
   \<exists>k. 1 \<le> k \<and> k \<le> length pats \<and>
     (let xs = fst (replay E (world s) (take k (map (\<lambda>p. b @ p) pats)));
          s' = \<lparr>world = snd (replay E (world s) (take k (map (\<lambda>p. b @ p) pats))),
                exchanges = exchanges s @ xs\<rparr>
      in list_all (\<lambda>x. snd x \<noteq> OtherError \<and> \<not> looks_like_sitemap (content_of (snd x)))
           (butlast xs) \<and>
         try_patterns E b pats s =
           (if snd (last xs) = OtherError then Raises s'
            else if looks_like_sitemap (content_of (snd (last xs))) then Returns [fst (last xs)] s'
            else Returns [] s') \<and>
         (snd (last xs) = OtherError \<or> looks_like_sitemap (content_of (snd (last xs))) \<or>
          k = length pats))"
proof (induction pats arbitrary: s)
  case Nil
  then show ?case by simp
next
  case (Cons p pats)
  obtain r w1 where g: "http_get E (world s) (b @ p) = (r, w1)"
    by (cases "http_get E (world s) (b @ p)")
  let ?s1 = "\<lparr>world = w1, exchanges = exchanges s @ [(b @ p, r)]\<rparr>"
  have one: "replay E (world s) (take 1 (map (\<lambda>p. b @ p) (p # pats))) = ([(b @ p, r)], w1)"
    using g by simp
  have f: "fetch E s (b @ p) =
      (case r of Body c \<Rightarrow> Returns (Some c) ?s1 | HTTPError \<Rightarrow> Returns None ?s1
       | OtherError \<Rightarrow> Raises ?s1)"
    using g by (simp add: fetch_def Let_def)
  show ?case
  proof (cases "r = OtherError \<or> looks_like_sitemap (content_of r) \<or> pats = []")
    case True
    have res: "try_patterns E b (p # pats) s =
        (if r = OtherError then Raises ?s1
         else if looks_like_sitemap (content_of r) then Returns [b @ p] ?s1
         else Returns [] ?s1)"
      using True f by (cases r) (auto simp: Let_def)
    have "1 \<le> (1::nat) \<and> 1 \<le> length (p # pats) \<and>
      (let xs = fst (replay E (world s) (take 1 (map (\<lambda>p. b @ p) (p # pats))));
           s' = \<lparr>world = snd (replay E (world s) (take 1 (map (\<lambda>p. b @ p) (p # pats)))),
                 exchanges = exchanges s @ xs\<rparr>
       in list_all (\<lambda>x. snd x \<noteq> OtherError \<and> \<not> looks_like_sitemap (content_of (snd x)))
            (butlast xs) \<and>
          try_patterns E b (p # pats) s =
            (if snd (last xs) = OtherError then Raises s'
             else if looks_like_sitemap (content_of (snd (last xs))) then Returns [fst (last xs)] s'
             else Returns [] s') \<and>
          (snd (last xs) = OtherError \<or> looks_like_sitemap (content_of (snd (last xs))) \<or>
           1 = length (p # pats)))"
      unfolding one Let_def using True res by auto
    then show ?thesis by (rule exI)
  next
    case False
    then have ne: "r \<noteq> OtherError" and na: "\<not> looks_like_sitemap (content_of r)"
      and pn: "pats \<noteq> []"
      by simp_all
    have step: "try_patterns E b (p # pats) s = try_patterns E b pats ?s1"
      using f ne na by (cases r) (simp_all add: Let_def)
    from Cons.IH [OF pn, of ?s1] obtain k where k: "1 \<le> k" "k \<le> length pats"
      and ih: "let xs = fst (replay E (world ?s1) (take k (map (\<lambda>p. b @ p) pats)));
          s' = \<lparr>world = snd (replay E (world ?s1) (take k (map (\<lambda>p. b @ p) pats))),
                exchanges = exchanges ?s1 @ xs\<rparr>
      in list_all (\<lambda>x. snd x \<noteq> OtherError \<and> \<not> looks_like_sitemap (content_of (snd x)))
           (butlast xs) \<and>
         try_patterns E b pats ?s1 =
           (if snd (last xs) = OtherError then Raises s'
            else if looks_like_sitemap (content_of (snd (last xs))) then Returns [fst (last xs)] s'
            else Returns [] s') \<and>
         (snd (last xs) = OtherError \<or> looks_like_sitemap (content_of (snd (last xs))) \<or>
          k = length pats)"
      by blast
    let ?xs = "fst (replay E w1 (take k (map (\<lambda>p. b @ p) pats)))"
    have len: "length ?xs = k"
      using k by (simp add: length_replay)
    then have xne: "?xs \<noteq> []"
      using k by auto
    have rp: "replay E (world s) (take (Suc k) (map (\<lambda>p. b @ p) (p # pats))) =
        ((b @ p, r) # ?xs, snd (replay E w1 (take k (map (\<lambda>p. b @ p) pats))))"
      using g by (simp split: prod.splits)
    have "1 \<le> Suc k \<and> Suc k \<le> length (p # pats) \<and>
      (let xs = fst (replay E (world s) (take (Suc k) (map (\<lambda>p. b @ p) (p # pats))));
           s' = \<lparr>world = snd (replay E (world s) (take (Suc k) (map (\<lambda>p. b @ p) (p # pats)))),
                 exchanges = exchanges s @ xs\<rparr>
       in list_all (\<lambda>x. snd x \<noteq> OtherError \<and> \<not> looks_like_sitemap (content_of (snd x)))
            (butlast xs) \<and>
          try_patterns E b (p # pats) s =
            (if snd (last xs) = OtherError then Raises s'
             else if looks_like_sitemap (content_of (snd (last xs))) then Returns [fst (last xs)] s'
             else Returns [] s') \<and>
          (snd (last xs) = OtherError \<or> looks_like_sitemap (content_of (snd (last xs))) \<or>
           Suc k = length (p # pats)))"
      unfolding rp step using ih k xne ne na by (simp add: Let_def)
    then show ?thesis by (rule exI)
  qed
qed

text \<open>
  Claim C8: the probe requests the first \<open>k\<close> candidate paths, each appended to the base,
  in their fixed order and each in the state of the network that the request before
  left, and no other: the state it ends in is the one after these \<open>k\<close> requests. Every
  response but the last was refused (it was no body containing \<^verbatim>\<open><urlset\<close> or
  \<^verbatim>\<open><sitemapindex\<close>). When the last response is such a body, the result is the one
  URL of the last request; when it is refused too, all candidates have been requested
  and the result is empty. (A request whose exception \<^verbatim>\<open>_fetch\<close> does not catch ends
  the probe with that exception.)
\<close>

theorem try_sitemap_variations_first_match:
  "\<exists>k. 1 \<le> k \<and> k \<le> length SITEMAP_VARIATIONS \<and>
     (let xs = fst (replay E (world s) (take k (map (\<lambda>p. base_url @ p) SITEMAP_VARIATIONS)));
          s' = \<lparr>world = snd (replay E (world s)
                   (take k (map (\<lambda>p. base_url @ p) SITEMAP_VARIATIONS))),
                exchanges = exchanges s @ xs\<rparr>
      in list_all (\<lambda>x. snd x \<noteq> OtherError \<and> \<not> looks_like_sitemap (content_of (snd x)))
           (butlast xs) \<and>
         try_sitemap_variations E base_url s =
           (if snd (last xs) = OtherError then Raises s'
            else if looks_like_sitemap (content_of (snd (last xs))) then Returns [fst (last xs)] s'
            else Returns [] s') \<and>
         (snd (last xs) = OtherError \<or> looks_like_sitemap (content_of (snd (last xs))) \<or>
          k = length SITEMAP_VARIATIONS))"
proof -
  have "SITEMAP_VARIATIONS \<noteq> []"
    by (simp add: SITEMAP_VARIATIONS_def)
  then show ?thesis
    unfolding try_sitemap_variations_def by (rule try_patterns_replay)
qed

text \<open>
  The witness is a site whose first candidate fails and whose second is a sitemap
  index: the probe makes two requests and returns the second candidate.
\<close>

theorem try_sitemap_variations_first_match_witness:
  "try_sitemap_variations probe_env ''https://x.com'' flaky_start =
     Returns [''https://x.com/sitemap_index.xml'']
       \<lparr>world = 2,
        exchanges = [(''https://x.com/sitemap.xml'', HTTPError),
          (''https://x.com/sitemap_index.xml'', Body ''<sitemapindex>'')]\<rparr>"
proof -
  have ev: "try_sitemap_variations probe_env ''https://x.com'' flaky_start =
     Returns [''https://x.com/sitemap_index.xml'']
       \<lparr>world = 2,
        exchanges = [(''https://x.com/sitemap.xml'', HTTPError),
          (''https://x.com/sitemap_index.xml'', Body ''<sitemapindex>'')]\<rparr>"
    by (simp add: try_sitemap_variations_def SITEMAP_VARIATIONS_def fetch_def probe_env_def
        flaky_start_def looks_like_sitemap_def Let_def)
  show ?thesis
    using try_sitemap_variations_first_match [of probe_env flaky_start "''https://x.com''"]
    by (simp only: ev)
qed

section \<open>Properties of the sitemap expander\<close>

lemma level_sum_step:
  fixes b :: nat
  assumes "d \<le> 3"
  shows "(\<Sum>i<4 - d. b ^ i) = 1 + b * (\<Sum>i<4 - (d + 1). b ^ i)"
proof -
  have "4 - d = Suc (4 - (d + 1))"
    using assms by simp
  then have "(\<Sum>i<4 - d. b ^ i) = (\<Sum>i<Suc (4 - (d + 1)). b ^ i)"
    by simp
  also have "\<dots> = b ^ 0 + (\<Sum>i<4 - (d + 1). b ^ Suc i)"
    by (rule sum.lessThan_Suc_shift)
  also have "\<dots> = 1 + b * (\<Sum>i<4 - (d + 1). b ^ i)"
    by (simp add: sum_distrib_left)
  finally show ?thesis .
qed

lemma level_sum_pos:
  fixes b :: nat
  assumes "d \<le> 3"
  shows "1 \<le> (\<Sum>i<4 - d. b ^ i)"
  using level_sum_step [OF assms, of b] by simp

lemma crawl_sitemaps_loop_skip:
  assumes ex1: "exchanges s1 = exchanges s @ [(u, r)]"
    and eq: "crawl_sitemaps_loop E (u # rest) d a s = crawl_sitemaps_loop E rest d a' s1"
    and ih: "\<exists>xs. exchanges (state_of (crawl_sitemaps_loop E rest d a' s1)) = exchanges s1 @ xs \<and>
               length xs \<le> length rest * L"
    and pos: "1 \<le> L"
  shows "\<exists>xs. exchanges (state_of (crawl_sitemaps_loop E (u # rest) d a s)) = exchanges s @ xs \<and>
               length xs \<le> length (u # rest) * L"
proof -
  from ih obtain xs where
    xs: "exchanges (state_of (crawl_sitemaps_loop E rest d a' s1)) = exchanges s1 @ xs"
    and len: "length xs \<le> length rest * L"
    by (elim exE conjE)
  have "exchanges (state_of (crawl_sitemaps_loop E (u # rest) d a s)) = exchanges s @ ((u, r) # xs)"
    unfolding eq using xs ex1 by simp
  moreover have "length ((u, r) # xs) \<le> length (u # rest) * L"
    using len pos by simp
  ultimately show ?thesis by blast
qed

lemma crawl_sitemaps_loop_raise:
  assumes ex2: "exchanges s2 = exchanges s @ ((u, r) # xs)"
    and eq: "crawl_sitemaps_loop E (u # rest) d a s = Raises s2"
    and len: "1 + length xs \<le> L"
  shows "\<exists>xs. exchanges (state_of (crawl_sitemaps_loop E (u # rest) d a s)) = exchanges s @ xs \<and>
               length xs \<le> length (u # rest) * L"
proof -
  have "exchanges (state_of (crawl_sitemaps_loop E (u # rest) d a s)) = exchanges s @ ((u, r) # xs)"
    unfolding eq using ex2 by simp
  moreover have "length ((u, r) # xs) \<le> length (u # rest) * L"
    using len by simp
  ultimately show ?thesis by blast
qed

lemma crawl_sitemaps_requests:
  fixes b :: nat
  shows "(\<forall>c. length (snd (parse_sitemap E c)) \<le> b) \<longrightarrow>
      (\<exists>xs. exchanges (state_of (crawl_sitemaps E us d s)) = exchanges s @ xs \<and>
            length xs \<le> length us * (\<Sum>i<4 - d. b ^ i))"
    and "(\<forall>c. length (snd (parse_sitemap E c)) \<le> b) \<and> d \<le> 3 \<longrightarrow>
      (\<exists>xs. exchanges (state_of (crawl_sitemaps_loop E us d a s)) = exchanges s @ xs \<and>
            length xs \<le> length us * (\<Sum>i<4 - d. b ^ i))"
proof (induction E us d s and E us d a s rule: crawl_sitemaps_crawl_sitemaps_loop.induct)
  case (1 E sitemap_urls depth s)
  show ?case
  proof (cases "3 < depth")
    case True
    then show ?thesis by simp
  next
    case False
    then have "crawl_sitemaps E sitemap_urls depth s = crawl_sitemaps_loop E sitemap_urls depth [] s"
      by simp
    moreover have "depth \<le> 3" using False by simp
    ultimately show ?thesis using 1 [OF False] by simp
  qed
next
  case (2 E depth all_urls s)
  show ?case by simp
next
  case (3 E sitemap_url rest depth all_urls s)
  show ?case
  proof (intro impI, elim conjE)
    assume B: "\<forall>c. length (snd (parse_sitemap E c)) \<le> b" and d: "depth \<le> 3"
    let ?L = "\<Sum>i<4 - depth. b ^ i"
    have pos: "1 \<le> ?L" using d by (rule level_sum_pos)
    from fetch_exchanges [of E s sitemap_url] obtain r where
      ex: "exchanges (state_of (fetch E s sitemap_url)) = exchanges s @ [(sitemap_url, r)]"
      by blast
    show "\<exists>xs. exchanges (state_of (crawl_sitemaps_loop E (sitemap_url # rest) depth all_urls s)) =
               exchanges s @ xs \<and> length xs \<le> length (sitemap_url # rest) * ?L"
    proof (cases "fetch E s sitemap_url")
      case (Raises s1)
      have ex2: "exchanges s1 = exchanges s @ ((sitemap_url, r) # [])"
        using ex Raises by simp
      have eq: "crawl_sitemaps_loop E (sitemap_url # rest) depth all_urls s = Raises s1"
        using Raises by simp
      show ?thesis
        by (rule crawl_sitemaps_loop_raise [OF ex2 eq]) (use pos in simp)
    next
      case (Returns got s1)
      have ex1: "exchanges s1 = exchanges s @ [(sitemap_url, r)]"
        using ex Returns by simp
      show ?thesis
      proof (cases got)
        case None
        have eq: "crawl_sitemaps_loop E (sitemap_url # rest) depth all_urls s =
            crawl_sitemaps_loop E rest depth all_urls s1"
          using Returns None by simp
        have ih: "\<exists>xs. exchanges (state_of (crawl_sitemaps_loop E rest depth all_urls s1)) =
            exchanges s1 @ xs \<and> length xs \<le> length rest * ?L"
          using "3.IH"(1) [OF Returns None] B d by simp
        show ?thesis by (rule crawl_sitemaps_loop_skip [OF ex1 eq ih pos])
      next
        case (Some content)
        show ?thesis
        proof (cases "content = []")
          case True
          have eq: "crawl_sitemaps_loop E (sitemap_url # rest) depth all_urls s =
              crawl_sitemaps_loop E rest depth all_urls s1"
            using Returns Some True by simp
          have ih: "\<exists>xs. exchanges (state_of (crawl_sitemaps_loop E rest depth all_urls s1)) =
              exchanges s1 @ xs \<and> length xs \<le> length rest * ?L"
            using "3.IH"(2) [OF Returns Some True] B d by simp
          show ?thesis by (rule crawl_sitemaps_loop_skip [OF ex1 eq ih pos])
        next
          case ne: False
          obtain urls nested where p: "parse_sitemap E content = (urls, nested)"
            by (cases "parse_sitemap E content")
          show ?thesis
          proof (cases "nested = []")
            case True
            have eq: "crawl_sitemaps_loop E (sitemap_url # rest) depth all_urls s =
                crawl_sitemaps_loop E rest depth (all_urls @ urls) s1"
              using Returns Some ne p True by simp
            have ih: "\<exists>xs. exchanges (state_of (crawl_sitemaps_loop E rest depth (all_urls @ urls) s1)) =
                exchanges s1 @ xs \<and> length xs \<le> length rest * ?L"
              using "3.IH"(5) [OF Returns Some ne p [symmetric]] True B d by simp
            show ?thesis by (rule crawl_sitemaps_loop_skip [OF ex1 eq ih pos])
          next
            case nn: False
            have "\<exists>xs. exchanges (state_of (crawl_sitemaps E nested (depth + 1) s1)) =
                  exchanges s1 @ xs \<and>
                length xs \<le> length nested * (\<Sum>i<4 - (depth + 1). b ^ i)"
              using "3.IH"(3) [OF Returns Some ne p [symmetric] nn] B by simp
            then obtain xs2 where
              xs2: "exchanges (state_of (crawl_sitemaps E nested (depth + 1) s1)) = exchanges s1 @ xs2"
              and len2: "length xs2 \<le> length nested * (\<Sum>i<4 - (depth + 1). b ^ i)"
              by (elim exE conjE)
            have "length nested \<le> b"
              using B p by (metis snd_conv)
            then have "length nested * (\<Sum>i<4 - (depth + 1). b ^ i) \<le>
                b * (\<Sum>i<4 - (depth + 1). b ^ i)"
              by (rule mult_le_mono1)
            then have one: "1 + length xs2 \<le> ?L"
              using len2 level_sum_step [OF d, of b] by linarith
            show ?thesis
            proof (cases "crawl_sitemaps E nested (depth + 1) s1")
              case inner: (Raises s2)
              have ex2: "exchanges s2 = exchanges s @ ((sitemap_url, r) # xs2)"
                using xs2 ex1 inner by simp
              have eq: "crawl_sitemaps_loop E (sitemap_url # rest) depth all_urls s = Raises s2"
                using Returns Some ne p nn inner by simp
              show ?thesis
                by (rule crawl_sitemaps_loop_raise [OF ex2 eq one])
            next
              case inner: (Returns below s2)
              have ex2: "exchanges s2 = exchanges s1 @ xs2"
                using xs2 inner by simp
              have eq: "crawl_sitemaps_loop E (sitemap_url # rest) depth all_urls s =
                  crawl_sitemaps_loop E rest depth (all_urls @ urls @ below) s2"
                using Returns Some ne p nn inner by simp
              have "\<exists>xs. exchanges (state_of
                    (crawl_sitemaps_loop E rest depth (all_urls @ urls @ below) s2)) =
                  exchanges s2 @ xs \<and> length xs \<le> length rest * ?L"
                using "3.IH"(4) [OF Returns Some ne p [symmetric] nn inner] B d by simp
              then obtain xs3 where
                xs3: "exchanges (state_of
                    (crawl_sitemaps_loop E rest depth (all_urls @ urls @ below) s2)) =
                  exchanges s2 @ xs3"
                and len3: "length xs3 \<le> length rest * ?L"
                by (elim exE conjE)
              have len: "length ((sitemap_url, r) # xs2 @ xs3) \<le> length (sitemap_url # rest) * ?L"
                using len3 one by simp
              have "exchanges (state_of (crawl_sitemaps_loop E (sitemap_url # rest) depth all_urls s)) =
                  exchanges s @ ((sitemap_url, r) # xs2 @ xs3)"
                unfolding eq using xs3 ex2 ex1 by simp
              with len show ?thesis by blast
            qed
          qed
        qed
      qed
    qed
  qed
qed

text \<open>
  Claim C3. \<^const>\<open>crawl_sitemaps\<close> is a total function: its recursion ends because the
  depth grows by one at each nested call and nothing is done beyond depth 3. Called at a
  depth of 4 or more it makes no request and returns no URL. At depth 3 a sitemap is
  still fetched and its own leaf URLs are returned, but the sitemaps nested in it add
  nothing. And when no document names more than \<open>b\<close> nested sitemaps, the expansion of
  \<open>n\<close> sitemap URLs at depth \<open>d\<close> makes at most \<open>n * (1 + b + ... + b ^ (3 - d))\<close>
  requests, whatever the responses are, also when a sitemap index names itself.
\<close>

theorem crawl_sitemaps_depth_cap:
  fixes b :: nat
  shows "crawl_sitemaps E sitemap_urls (4 + k) s = Returns [] s \<and>
    crawl_sitemaps E [u] 3 s =
      (case fetch E s u of
         Raises s1 \<Rightarrow> Raises s1
       | Returns None s1 \<Rightarrow> Returns [] s1
       | Returns (Some c) s1 \<Rightarrow> Returns (if c = [] then [] else fst (parse_sitemap E c)) s1) \<and>
    ((\<forall>c. length (snd (parse_sitemap E c)) \<le> b) \<longrightarrow>
       (\<exists>xs. exchanges (state_of (crawl_sitemaps E sitemap_urls depth s)) = exchanges s @ xs \<and>
             length xs \<le> length sitemap_urls * (\<Sum>i<4 - depth. b ^ i)))"
proof (intro conjI)
  show "crawl_sitemaps E sitemap_urls (4 + k) s = Returns [] s"
    by simp
  show "crawl_sitemaps E [u] 3 s =
      (case fetch E s u of
         Raises s1 \<Rightarrow> Raises s1
       | Returns None s1 \<Rightarrow> Returns [] s1
       | Returns (Some c) s1 \<Rightarrow> Returns (if c = [] then [] else fst (parse_sitemap E c)) s1)"
    by (simp split: prod.splits option.splits outcome.splits)
  show "(\<forall>c. length (snd (parse_sitemap E c)) \<le> b) \<longrightarrow>
       (\<exists>xs. exchanges (state_of (crawl_sitemaps E sitemap_urls depth s)) = exchanges s @ xs \<and>
             length xs \<le> length sitemap_urls * (\<Sum>i<4 - depth. b ^ i))"
    by (rule crawl_sitemaps_requests(1))
qed

text \<open>
  The witness is a sitemap index that names itself: four requests (depths 0 to 3), four
  copies of its one leaf URL, and nothing at depth 4.
\<close>

theorem crawl_sitemaps_depth_cap_witness:
  "(\<forall>c. length (snd (parse_sitemap cyclic_env c)) \<le> 1) \<and>
   crawl_sitemaps cyclic_env [''https://x.com/sitemap.xml''] 4 start_state =
     Returns [] start_state \<and>
   returned (crawl_sitemaps cyclic_env [''https://x.com/sitemap.xml''] 0 start_state) =
     replicate 4 ''https://x.com/page'' \<and>
   (\<exists>xs. exchanges (state_of
             (crawl_sitemaps cyclic_env [''https://x.com/sitemap.xml''] 0 start_state)) =
           exchanges start_state @ xs \<and> length xs \<le> 4)"
proof -
  have B: "\<forall>c. length (snd (parse_sitemap cyclic_env c)) \<le> 1"
    by (simp add: cyclic_env_def)
  have leaves: "returned (crawl_sitemaps cyclic_env [''https://x.com/sitemap.xml''] 0 start_state) =
      replicate 4 ''https://x.com/page''"
    by (simp add: cyclic_env_def start_state_def fetch_def eval_nat_numeral)
  from crawl_sitemaps_depth_cap
    [where E = cyclic_env and sitemap_urls = "[''https://x.com/sitemap.xml'']" and k = 0
      and s = start_state and b = 1 and depth = 0]
  show ?thesis using B leaves by simp
qed

section \<open>Properties of the discovery orchestrator\<close>

lemma fromkeys_acc_first_seen:
  "fromkeys_acc keys xs = keys @ filter (\<lambda>x. x \<notin> set keys) (first_seen xs)"
proof (induction xs arbitrary: keys)
  case Nil
  show ?case by simp
next
  case (Cons x xs)
  show ?case
  proof (cases "x \<in> set keys")
    case True
    then show ?thesis
      using Cons.IH [of keys] by (simp add: filter_removeAll_member)
  next
    case False
    have "filter (\<lambda>y. y \<notin> set (keys @ [x])) (first_seen xs) =
        filter (\<lambda>y. y \<notin> set keys) (removeAll x (first_seen xs))"
      using filter_removeAll_insert [of x "set keys"] by simp
    then show ?thesis using False Cons.IH [of "keys @ [x]"] by simp
  qed
qed

lemma fromkeys_first_seen: "fromkeys xs = first_seen xs"
  by (simp add: fromkeys_def fromkeys_acc_first_seen)

lemma distinct_slice_to: "distinct xs \<Longrightarrow> distinct (slice_to n xs)"
  by (simp add: slice_to_def)

lemma length_slice_to: "0 \<le> n \<Longrightarrow> int (length (slice_to n xs)) \<le> n"
  by (simp add: slice_to_def)

lemma discover_urls_slice:
  "\<exists>all_urls. returned (discover_urls C E b m s) = slice_to m (first_seen all_urls)"
proof (cases "discover_urls C E b m s")
  case (Raises s1)
  then have "returned (discover_urls C E b m s) = slice_to m (first_seen [])"
    by (simp add: slice_to_def)
  then show ?thesis by (rule exI)
next
  case (Returns urls s1)
  then have "\<exists>all_urls. urls = slice_to m (fromkeys all_urls)"
    by (auto simp: discover_urls_def Let_def split: outcome.splits)
  then show ?thesis
    using Returns by (simp add: fromkeys_first_seen)
qed

lemma url_extract_page_info: "url (extract_page_info C E b u html) = u"
  by (simp add: extract_page_info_def Let_def)

lemma subseq_distinct:
  assumes "subseq xs ys" and "distinct ys"
  shows "distinct xs"
  using assms by (induction rule: list_emb.induct) (auto dest: list_emb_set)

lemma crawl_pages_loop_subseq:
  "returned (crawl_pages_loop C E b pages urls s) = [] \<or>
   (\<exists>ps. returned (crawl_pages_loop C E b pages urls s) = pages @ ps \<and>
          subseq (map url ps) urls)"
proof (induction urls arbitrary: pages s)
  case Nil
  show ?case by simp
next
  case (Cons u urls)
  show ?case
  proof (cases "fetch E s u")
    case (Raises s1)
    then show ?thesis by simp
  next
    case (Returns got s1)
    show ?thesis
    proof (cases "got = None \<or> got = Some []")
      case True
      then have eq: "crawl_pages_loop C E b pages (u # urls) s = crawl_pages_loop C E b pages urls s1"
        using Returns by auto
      from Cons.IH [of pages s1] show ?thesis
        unfolding eq by (auto intro: list_emb_Cons)
    next
      case False
      then obtain html where html: "got = Some html" "html \<noteq> []"
        by (cases got) auto
      let ?p = "extract_page_info C E b u html"
      have eq: "crawl_pages_loop C E b pages (u # urls) s =
          crawl_pages_loop C E b (pages @ [?p]) urls s1"
        using Returns html by simp
      from Cons.IH [of "pages @ [?p]" s1] show ?thesis
      proof
        assume "returned (crawl_pages_loop C E b (pages @ [?p]) urls s1) = []"
        then show ?thesis unfolding eq by simp
      next
        assume "\<exists>ps. returned (crawl_pages_loop C E b (pages @ [?p]) urls s1) = (pages @ [?p]) @ ps \<and>
            subseq (map url ps) urls"
        then obtain ps where
          ps: "returned (crawl_pages_loop C E b (pages @ [?p]) urls s1) = (pages @ [?p]) @ ps"
          and sub: "subseq (map url ps) urls"
          by (elim exE conjE)
        have "returned (crawl_pages_loop C E b pages (u # urls) s) = pages @ (?p # ps)"
          unfolding eq using ps by simp
        moreover have "subseq (map url (?p # ps)) (u # urls)"
          using sub by (simp add: url_extract_page_info)
        ultimately show ?thesis by blast
      qed
    qed
  qed
qed

text \<open>
  Claim C4, as the code has it: the records a crawl returns have pairwise different
  URLs, and their URLs are, in order, among the discovered URLs, which are the first
  occurrences of the URLs found, cut by the slice \<^verbatim>\<open>[:max_urls]\<close>; when \<open>max_urls\<close> is
  not negative, there are at most \<open>max_urls\<close> records.
\<close>

theorem discover_and_crawl_bounded_distinct:
  "distinct (map url (returned (discover_and_crawl C E raw max_urls s))) \<and>
   subseq (map url (returned (discover_and_crawl C E raw max_urls s)))
     (returned (discover_urls C E (normalize_url raw) max_urls s)) \<and>
   (\<exists>all_urls. returned (discover_urls C E (normalize_url raw) max_urls s) =
      slice_to max_urls (first_seen all_urls)) \<and>
   (0 \<le> max_urls \<longrightarrow>
      int (length (returned (discover_and_crawl C E raw max_urls s))) \<le> max_urls)"
proof -
  let ?b = "normalize_url raw"
  let ?urls = "returned (discover_urls C E ?b max_urls s)"
  let ?pages = "returned (discover_and_crawl C E raw max_urls s)"
  obtain all_urls where a: "?urls = slice_to max_urls (first_seen all_urls)"
    using discover_urls_slice [of C E ?b max_urls s] by blast
  have du: "distinct ?urls"
    unfolding a by (rule distinct_slice_to) (rule distinct_first_seen)
  have sub: "subseq (map url ?pages) ?urls"
  proof (cases "discover_urls C E ?b max_urls s")
    case (Raises s1)
    then show ?thesis by (simp add: discover_and_crawl_def Let_def)
  next
    case (Returns urls s1)
    then have dc: "discover_and_crawl C E raw max_urls s = crawl_pages_loop C E ?b [] urls s1"
      by (simp add: discover_and_crawl_def crawl_pages_def Let_def)
    from crawl_pages_loop_subseq [of C E ?b "[]" urls s1]
    have "subseq (map url (returned (crawl_pages_loop C E ?b [] urls s1))) urls"
      by auto
    then show ?thesis
      unfolding dc using Returns by simp
  qed
  have 1: "distinct (map url ?pages)"
    using sub du by (rule subseq_distinct)
  have 3: "\<exists>all_urls. ?urls = slice_to max_urls (first_seen all_urls)"
    by (rule discover_urls_slice)
  have le: "length ?pages \<le> length ?urls"
    using list_emb_length [OF sub] by simp
  have 4: "0 \<le> max_urls \<longrightarrow> int (length ?pages) \<le> max_urls"
  proof
    assume "0 \<le> max_urls"
    then have "int (length ?urls) \<le> max_urls"
      unfolding a by (rule length_slice_to)
    with le show "int (length ?pages) \<le> max_urls"
      by simp
  qed
  from 1 sub 3 4 show ?thesis by (intro conjI)
qed

theorem discover_and_crawl_bounded_distinct_witness:
  "(0::int) \<le> 1 \<and>
   int (length (returned
     (discover_and_crawl AsyncWebCrawler leaves_env ''x.com'' 1 start_state))) \<le> 1 \<and>
   distinct (map url (returned
     (discover_and_crawl AsyncWebCrawler leaves_env ''x.com'' 1 start_state)))"
  using discover_and_crawl_bounded_distinct
    [of AsyncWebCrawler leaves_env "''x.com''" 1 start_state]
  by simp

text \<open>
  Claim C4 as stated fails for a negative \<open>max_urls\<close>: the slice \<^verbatim>\<open>[:-1]\<close> drops the
  last of the two URLs of the sitemap and keeps the first, so one record is returned,
  which is more than \<open>- 1\<close>.
\<close>

lemma discover_urls_leaves:
  "discover_urls AsyncWebCrawler leaves_env ''https://x.com'' (- 1) start_state =
     Returns [''https://x.com/a'']
      \<lparr>world = (),
       exchanges =
         [(''https://x.com/robots.txt'', Body ''<urlset>''),
          (''https://x.com/sitemap.xml'', Body ''<urlset>''),
          (''https://x.com/sitemap.xml'', Body ''<urlset>'')]\<rparr>"
  by (simp add: discover_urls_def leaves_env_def start_state_def fetch_def find_sitemaps_def
      splitlines_def is_linebreak_def strip_def is_space_def lower_char_def
      try_sitemap_variations_def SITEMAP_VARIATIONS_def looks_like_sitemap_def
      slice_to_def fromkeys_def Let_def)

theorem discover_and_crawl_negative_max_urls:
  "map url (returned
     (discover_and_crawl AsyncWebCrawler leaves_env ''x.com'' (- 1) start_state)) =
     [''https://x.com/a''] \<and>
   \<not> int (length (returned
       (discover_and_crawl AsyncWebCrawler leaves_env ''x.com'' (- 1) start_state))) \<le> - 1"
proof -
  have n: "normalize_url ''x.com'' = ''https://x.com''"
    by (simp add: normalize_url_def rstrip_char_def)
  have "returned (discover_and_crawl AsyncWebCrawler leaves_env ''x.com'' (- 1) start_state) =
      [extract_page_info AsyncWebCrawler leaves_env ''https://x.com'' ''https://x.com/a'' ''<urlset>'']"
    unfolding discover_and_crawl_def n Let_def discover_urls_leaves
    by (simp add: crawl_pages_def fetch_def leaves_env_def)
  then show ?thesis
    by (simp add: url_extract_page_info)
qed


end
